theory Spec2Isabelle
  imports Complex_Main "HOL-Library.Word" "HOL-Library.Sublist" "HOL-Library.AList"
begin

section \<open>Strings of the program\<close>

text \<open>
  A JavaScript string is a sequence of UTF-16 code units and \<open>length\<close> counts code units.
  \<open>str\<close> turns an ASCII literal of the source into its code units.
\<close>

type_synonym code_unit = "16 word"
type_synonym jsstring = "code_unit list"

definition str :: "string \<Rightarrow> jsstring" where
  "str cs = map (\<lambda>c. of_nat (of_char c)) cs"

text \<open>
  \<open>String.prototype.trim\<close> removes white space and line terminators from both ends:
  TAB, LF, VT, FF, CR, SPACE, NBSP, U+1680, U+2000 to U+200A, U+2028, U+2029, U+202F,
  U+205F, U+3000 and U+FEFF.
\<close>

definition is_whitespace :: "code_unit \<Rightarrow> bool" where
  "is_whitespace c \<longleftrightarrow>
     c = 0x09 \<or> c = 0x0A \<or> c = 0x0B \<or> c = 0x0C \<or> c = 0x0D \<or> c = 0x20 \<or> c = 0xA0 \<or>
     c = 0x1680 \<or> (0x2000 \<le> c \<and> c \<le> 0x200A) \<or> c = 0x2028 \<or> c = 0x2029 \<or>
     c = 0x202F \<or> c = 0x205F \<or> c = 0x3000 \<or> c = 0xFEFF"

definition trim :: "jsstring \<Rightarrow> jsstring" where
  "trim s = rev (dropWhile is_whitespace (rev (dropWhile is_whitespace s)))"

section \<open>Values, tasks and their JSON text\<close>

text \<open>
  The values the program handles. Numbers are kept exact (a rational); the task ids are
  the integral results of \<open>Date.now()\<close>. An object is the list of its properties in
  creation order.
\<close>

datatype jsval =
    JUndefined
  | JNull
  | JBoolean bool
  | JNumber rat
  | JString jsstring
  | JArray "jsval list"
  | JObject "(jsstring \<times> jsval) list"

text \<open>The task object of \<open>handleAddTask\<close>: \<open>{id, text, completed, createdAt}\<close>.\<close>

record task =
  id' :: int
  text' :: jsstring
  completed :: bool
  createdAt :: jsstring

definition js_of_task :: "task \<Rightarrow> jsval" where
  "js_of_task t = JObject
     [(str ''id'', JNumber (of_int (id' t))),
      (str ''text'', JString (text' t)),
      (str ''completed'', JBoolean (completed t)),
      (str ''createdAt'', JString (createdAt t))]"

definition js_of_tasks :: "task list \<Rightarrow> jsval" where
  "js_of_tasks ts = JArray (map js_of_task ts)"

subsection \<open>\<open>JSON.stringify\<close> on an array of task objects\<close>

definition hexdigit :: "nat \<Rightarrow> code_unit" where
  "hexdigit n = (if n < 10 then 0x30 + of_nat n else 0x61 + of_nat (n - 10))"

definition unicode_escape :: "code_unit \<Rightarrow> jsstring" where
  "unicode_escape c =
     [0x5C, 0x75, hexdigit (unat c div 4096), hexdigit (unat c div 256 mod 16),
      hexdigit (unat c div 16 mod 16), hexdigit (unat c mod 16)]"

definition is_high_surrogate :: "code_unit \<Rightarrow> bool" where
  "is_high_surrogate c \<longleftrightarrow> 0xD800 \<le> c \<and> c \<le> 0xDBFF"

definition is_low_surrogate :: "code_unit \<Rightarrow> bool" where
  "is_low_surrogate c \<longleftrightarrow> 0xDC00 \<le> c \<and> c \<le> 0xDFFF"

text \<open>
  The body of \<open>QuoteJSONString\<close>: the two-character escapes, \<open>\uXXXX\<close> for the other
  control characters and for a surrogate that has no partner, everything else as it is.
\<close>

fun quote_chars :: "jsstring \<Rightarrow> jsstring" where
  "quote_chars [] = []"
| "quote_chars (c # cs) =
     (if c = 0x08 then [0x5C, 0x62] @ quote_chars cs
      else if c = 0x09 then [0x5C, 0x74] @ quote_chars cs
      else if c = 0x0A then [0x5C, 0x6E] @ quote_chars cs
      else if c = 0x0C then [0x5C, 0x66] @ quote_chars cs
      else if c = 0x0D then [0x5C, 0x72] @ quote_chars cs
      else if c = 0x22 then [0x5C, 0x22] @ quote_chars cs
      else if c = 0x5C then [0x5C, 0x5C] @ quote_chars cs
      else if c < 0x20 then unicode_escape c @ quote_chars cs
      else if is_high_surrogate c then
        (case cs of
           [] \<Rightarrow> unicode_escape c
         | d # ds \<Rightarrow>
             if is_low_surrogate d then c # d # quote_chars ds
             else unicode_escape c @ quote_chars cs)
      else if is_low_surrogate c then unicode_escape c @ quote_chars cs
      else c # quote_chars cs)"

definition QuoteJSONString :: "jsstring \<Rightarrow> jsstring" where
  "QuoteJSONString s = [0x22] @ quote_chars s @ [0x22]"

fun digits :: "nat \<Rightarrow> jsstring" where
  "digits n = (if n < 10 then [0x30 + of_nat n] else digits (n div 10) @ [0x30 + of_nat (n mod 10)])"

declare digits.simps [simp del]

text \<open>\<open>Number::toString\<close> on an integral number (below \<open>10^21\<close> in magnitude).\<close>

definition Number_toString :: "int \<Rightarrow> jsstring" where
  "Number_toString n = (if n < 0 then 0x2D # digits (nat (- n)) else digits (nat n))"

definition stringify_bool :: "bool \<Rightarrow> jsstring" where
  "stringify_bool b = (if b then str ''true'' else str ''false'')"

definition stringify_task :: "task \<Rightarrow> jsstring" where
  "stringify_task t =
     str ''{'' @ QuoteJSONString (str ''id'') @ str '':'' @ Number_toString (id' t) @
     str '','' @ QuoteJSONString (str ''text'') @ str '':'' @ QuoteJSONString (text' t) @
     str '','' @ QuoteJSONString (str ''completed'') @ str '':'' @ stringify_bool (completed t) @
     str '','' @ QuoteJSONString (str ''createdAt'') @ str '':'' @ QuoteJSONString (createdAt t) @
     str ''}''"

fun join_comma :: "jsstring list \<Rightarrow> jsstring" where
  "join_comma [] = []"
| "join_comma [x] = x"
| "join_comma (x # y # ys) = x @ str '','' @ join_comma (y # ys)"

definition JSON_stringify_tasks :: "task list \<Rightarrow> jsstring" where
  "JSON_stringify_tasks ts = str ''['' @ join_comma (map stringify_task ts) @ str '']''"

subsection \<open>\<open>JSON.parse\<close>\<close>

text \<open>
  A recursive-descent reading of the JSON grammar: white space is space, TAB, LF and CR;
  a string may hold the escapes \<open>\" \\ \/ \b \f \n \r \t \uXXXX\<close> and no raw control
  character; a number is \<open>-? (0 | [1-9][0-9]*) (. [0-9]+)? ([eE] [+-]? [0-9]+)?\<close>.
  The value of a number is kept exact, where JavaScript rounds it to the nearest double
  (and keeps the sign of \<open>-0\<close>); the ids of the tasks are integers, which both read
  alike up to \<open>2^53\<close>.
\<close>

definition is_json_ws :: "code_unit \<Rightarrow> bool" where
  "is_json_ws c \<longleftrightarrow> c = 0x20 \<or> c = 0x09 \<or> c = 0x0A \<or> c = 0x0D"

definition skip_ws :: "jsstring \<Rightarrow> jsstring" where
  "skip_ws s = dropWhile is_json_ws s"

definition hex_value :: "code_unit \<Rightarrow> nat option" where
  "hex_value c =
     (if 0x30 \<le> c \<and> c \<le> 0x39 then Some (unat c - 48)
      else if 0x61 \<le> c \<and> c \<le> 0x66 then Some (unat c - 87)
      else if 0x41 \<le> c \<and> c \<le> 0x46 then Some (unat c - 55)
      else None)"

definition unescape :: "code_unit \<Rightarrow> code_unit option" where
  "unescape e =
     (if e = 0x22 then Some 0x22
      else if e = 0x5C then Some 0x5C
      else if e = 0x2F then Some 0x2F
      else if e = 0x62 then Some 0x08
      else if e = 0x66 then Some 0x0C
      else if e = 0x6E then Some 0x0A
      else if e = 0x72 then Some 0x0D
      else if e = 0x74 then Some 0x09
      else None)"

fun parse_chars :: "jsstring \<Rightarrow> (jsstring \<times> jsstring) option" where
  "parse_chars [] = None"
| "parse_chars (c # cs) =
     (if c = 0x22 then Some ([], cs)
      else if c = 0x5C then
        (case cs of
           [] \<Rightarrow> None
         | e # es \<Rightarrow>
             if e = 0x75 then
               (case es of
                  h1 # h2 # h3 # h4 # rest \<Rightarrow>
                    (case (hex_value h1, hex_value h2, hex_value h3, hex_value h4) of
                       (Some a, Some b, Some c', Some d) \<Rightarrow>
                         (case parse_chars rest of
                            None \<Rightarrow> None
                          | Some (x, r) \<Rightarrow> Some (of_nat (((a * 16 + b) * 16 + c') * 16 + d) # x, r))
                     | _ \<Rightarrow> None)
                | _ \<Rightarrow> None)
             else
               (case unescape e of
                  None \<Rightarrow> None
                | Some u \<Rightarrow>
                    (case parse_chars es of None \<Rightarrow> None | Some (x, r) \<Rightarrow> Some (u # x, r))))
      else if c < 0x20 then None
      else (case parse_chars cs of None \<Rightarrow> None | Some (x, r) \<Rightarrow> Some (c # x, r)))"

definition is_digit :: "code_unit \<Rightarrow> bool" where
  "is_digit c \<longleftrightarrow> 0x30 \<le> c \<and> c \<le> 0x39"

definition digits_value :: "jsstring \<Rightarrow> nat" where
  "digits_value ds = foldl (\<lambda>a c. 10 * a + (unat c - 48)) 0 ds"

definition parse_int_part :: "jsstring \<Rightarrow> (nat \<times> jsstring) option" where
  "parse_int_part s =
     (case s of
        [] \<Rightarrow> None
      | c # cs \<Rightarrow>
          if c = 0x30 then Some (0, cs)
          else if is_digit c then Some (digits_value (takeWhile is_digit s), dropWhile is_digit s)
          else None)"

definition parse_fraction :: "jsstring \<Rightarrow> (rat \<times> jsstring) option" where
  "parse_fraction s =
     (case s of
        [] \<Rightarrow> Some (0, s)
      | c # cs \<Rightarrow>
          if c = 0x2E then
            (let ds = takeWhile is_digit cs
             in if ds = [] then None
                else Some (of_nat (digits_value ds) / 10 ^ length ds, dropWhile is_digit cs))
          else Some (0, s))"

definition parse_sign :: "jsstring \<Rightarrow> bool \<times> jsstring" where
  "parse_sign s =
     (case s of
        [] \<Rightarrow> (False, s)
      | c # cs \<Rightarrow> if c = 0x2D then (True, cs) else if c = 0x2B then (False, cs) else (False, s))"

definition parse_exponent :: "jsstring \<Rightarrow> (int \<times> jsstring) option" where
  "parse_exponent s =
     (case s of
        [] \<Rightarrow> Some (0, s)
      | c # cs \<Rightarrow>
          if c = 0x65 \<or> c = 0x45 then
            (let (negative, s1) = parse_sign cs; ds = takeWhile is_digit s1
             in if ds = [] then None
                else Some (if negative then - int (digits_value ds) else int (digits_value ds),
                           dropWhile is_digit s1))
          else Some (0, s))"

definition parse_number :: "jsstring \<Rightarrow> (rat \<times> jsstring) option" where
  "parse_number s =
     (let (negative, s1) = (case s of [] \<Rightarrow> (False, s) | c # cs \<Rightarrow> if c = 0x2D then (True, cs) else (False, s))
      in case parse_int_part s1 of
           None \<Rightarrow> None
         | Some (i, s2) \<Rightarrow>
             (case parse_fraction s2 of
                None \<Rightarrow> None
              | Some (f, s3) \<Rightarrow>
                  (case parse_exponent s3 of
                     None \<Rightarrow> None
                   | Some (e, s4) \<Rightarrow>
                       Some ((if negative then - 1 else 1) * (of_nat i + f)
                               * (if e < 0 then 1 / 10 ^ nat (- e) else 10 ^ nat e), s4))))"

text \<open>
  The properties of an object in the order of their first appearance; a repeated key
  keeps its place and takes the later value.
\<close>

definition object_of :: "(jsstring \<times> jsval) list \<Rightarrow> (jsstring \<times> jsval) list" where
  "object_of ms = foldl (\<lambda>obj (k, v). AList.update k v obj) [] ms"

text \<open>
  Values, the elements of an array after \<open>[\<close> and the members of an object after
  \<open>{\<close>. Each function returns what it read and the text left over. The tests on
  lengths before the recursive calls make the recursion visibly well-founded; they hold
  whenever they are reached (\<open>parse_elements_unguarded\<close>, \<open>parse_members_unguarded\<close>).
\<close>

function (sequential) parse_value :: "jsstring \<Rightarrow> (jsval \<times> jsstring) option"
  and parse_elements :: "jsstring \<Rightarrow> (jsval list \<times> jsstring) option"
  and parse_members :: "jsstring \<Rightarrow> ((jsstring \<times> jsval) list \<times> jsstring) option"
where
  "parse_value [] = None"
| "parse_value (c # cs) =
     (if c = 0x5B then
        (case skip_ws cs of
           [] \<Rightarrow> None
         | d # ds \<Rightarrow>
             if d = 0x5D then Some (JArray [], ds)
             else (case parse_elements (d # ds) of
                     None \<Rightarrow> None
                   | Some (vs, r) \<Rightarrow> Some (JArray vs, r)))
      else if c = 0x7B then
        (case skip_ws cs of
           [] \<Rightarrow> None
         | d # ds \<Rightarrow>
             if d = 0x7D then Some (JObject [], ds)
             else (case parse_members (d # ds) of
                     None \<Rightarrow> None
                   | Some (ms, r) \<Rightarrow> Some (JObject (object_of ms), r)))
      else if c = 0x22 then
        (case parse_chars cs of None \<Rightarrow> None | Some (x, r) \<Rightarrow> Some (JString x, r))
      else if take 4 (c # cs) = str ''true'' then Some (JBoolean True, drop 4 (c # cs))
      else if take 5 (c # cs) = str ''false'' then Some (JBoolean False, drop 5 (c # cs))
      else if take 4 (c # cs) = str ''null'' then Some (JNull, drop 4 (c # cs))
      else (case parse_number (c # cs) of None \<Rightarrow> None | Some (x, r) \<Rightarrow> Some (JNumber x, r)))"
| "parse_elements s =
     (case parse_value s of
        None \<Rightarrow> None
      | Some (v, r) \<Rightarrow>
          (case skip_ws r of
             [] \<Rightarrow> None
           | d # ds \<Rightarrow>
               if d = 0x2C then
                 (if length (skip_ws ds) < length s then
                    (case parse_elements (skip_ws ds) of
                       None \<Rightarrow> None
                     | Some (vs, r') \<Rightarrow> Some (v # vs, r'))
                  else None)
               else if d = 0x5D then Some ([v], ds)
               else None))"
| "parse_members s =
     (case s of
        [] \<Rightarrow> None
      | q # cs \<Rightarrow>
          if q \<noteq> 0x22 then None
          else
            (case parse_chars cs of
               None \<Rightarrow> None
             | Some (k, r) \<Rightarrow>
                 (case skip_ws r of
                    [] \<Rightarrow> None
                  | d # ds \<Rightarrow>
                      if d \<noteq> 0x3A \<or> \<not> length (skip_ws ds) < length s then None
                      else
                        (case parse_value (skip_ws ds) of
                           None \<Rightarrow> None
                         | Some (v, r1) \<Rightarrow>
                             (case skip_ws r1 of
                                [] \<Rightarrow> None
                              | e # es \<Rightarrow>
                                  if e = 0x2C then
                                    (if length (skip_ws es) < length s then
                                       (case parse_members (skip_ws es) of
                                          None \<Rightarrow> None
                                        | Some (ms, r2) \<Rightarrow> Some ((k, v) # ms, r2))
                                     else None)
                                  else if e = 0x7D then Some ([(k, v)], es)
                                  else None)))))"
  by pat_completeness auto

termination
proof -
  have shorter: "length ds < length s" if "skip_ws s = d # ds" for s d and ds :: jsstring
    using that length_dropWhile_le [of is_json_ws s] by (simp add: skip_ws_def)
  show ?thesis
    by (relation "measure (\<lambda>x. case x of Inl s \<Rightarrow> 2 * length s
                                    | Inr (Inl s) \<Rightarrow> 2 * length s + 1
                                    | Inr (Inr s) \<Rightarrow> 2 * length s + 1)")
       (auto dest: shorter)
qed

declare parse_value.simps [simp del] parse_elements.simps [simp del] parse_members.simps [simp del]

text \<open>The exceptions the program meets.\<close>

datatype js_error = SyntaxError | SecurityError | QuotaExceededError

text \<open>\<open>JSON.parse\<close>: one value, white space around it, nothing else.\<close>

definition JSON_parse :: "jsstring \<Rightarrow> js_error + jsval" where
  "JSON_parse s =
     (case parse_value (skip_ws s) of
        None \<Rightarrow> Inl SyntaxError
      | Some (v, r) \<Rightarrow> if skip_ws r = [] then Inr v else Inl SyntaxError)"

section \<open>The browser's storage\<close>

text \<open>
  \<open>localStorage\<close>: the stored entries, whether access to it is denied (every call then
  throws \<open>SecurityError\<close>) and which writes the browser accepts (\<open>setItem\<close> throws
  \<open>QuotaExceededError\<close> on the others).
\<close>

record local_storage =
  items :: "jsstring \<rightharpoonup> jsstring"
  denied :: bool
  accepts :: "jsstring \<Rightarrow> jsstring \<Rightarrow> bool"

definition getItem :: "jsstring \<Rightarrow> local_storage \<Rightarrow> js_error + jsstring option" where
  "getItem k st = (if denied st then Inl SecurityError else Inr (items st k))"

definition setItem :: "jsstring \<Rightarrow> jsstring \<Rightarrow> local_storage \<Rightarrow> js_error + local_storage" where
  "setItem k v st =
     (if denied st then Inl SecurityError
      else if \<not> accepts st k v then Inl QuotaExceededError
      else Inr (st\<lparr>items := (items st)(k \<mapsto> v)\<rparr>))"

section \<open>The state of a \<open>TaskManager\<close>\<close>

text \<open>
  What the task container shows: the empty-state message, or one item per task of the
  filtered list.
\<close>

datatype view = EmptyState jsstring | TaskItems "task list"

text \<open>
  The fields of the object, the page elements it writes to and \<open>localStorage\<close>.
  \<open>currentFilter\<close> is \<open>None\<close> when \<open>dataset.filter\<close> was undefined; \<open>hideTimers\<close> counts
  the auto-hide callbacks that \<open>showError\<close> has scheduled.
\<close>

record app =
  tasks :: "task list"
  currentFilter :: "jsstring option"
  localStorage :: local_storage
  taskInput :: jsstring
  taskInputFocused :: bool
  errorMessage :: jsstring
  errorShown :: bool
  hideTimers :: nat
  activeFilterButton :: "jsstring option"
  tasksContainer :: view
  totalTasksEl :: int
  completedTasksEl :: int
  remainingTasksEl :: int
  clearCompletedBtnDisabled :: bool
  darkModeClass :: bool
  lightModeClass :: bool
  toggleAriaLabel :: jsstring
  toggleTitle :: jsstring
  toggleIcon :: jsstring


section \<open>The methods\<close>

definition showError :: "jsstring \<Rightarrow> app \<Rightarrow> app" where
  "showError message s =
     s\<lparr>errorMessage := message, errorShown := True, hideTimers := Suc (hideTimers s)\<rparr>"

definition clearError :: "app \<Rightarrow> app" where
  "clearError s = s\<lparr>errorMessage := [], errorShown := False\<rparr>"

definition getFilteredTasks :: "app \<Rightarrow> task list" where
  "getFilteredTasks s =
     (if currentFilter s = Some (str ''completed'') then filter (\<lambda>t. completed t) (tasks s)
      else if currentFilter s = Some (str ''pending'') then filter (\<lambda>t. \<not> completed t) (tasks s)
      else tasks s)"

record stats =
  total :: int
  completed' :: int
  remaining :: int

definition calculateStats :: "app \<Rightarrow> stats" where
  "calculateStats s =
     (let total = int (length (tasks s));
          completed = int (length (filter (\<lambda>t. completed t) (tasks s)));
          remaining = total - completed
      in \<lparr>total = total, completed' = completed, remaining = remaining\<rparr>)"

definition updateStats :: "app \<Rightarrow> app" where
  "updateStats s =
     (let st = calculateStats s
      in s\<lparr>totalTasksEl := total st, completedTasksEl := completed' st,
           remainingTasksEl := remaining st,
           clearCompletedBtnDisabled := (completed' st = 0)\<rparr>)"

definition renderTasks :: "app \<Rightarrow> app" where
  "renderTasks s =
     (let filteredTasks = getFilteredTasks s
      in if length filteredTasks = 0 then
           s\<lparr>tasksContainer := EmptyState
               (if currentFilter s = Some (str ''all'')
                then str ''No tasks yet. Add one to get started!''
                else str ''No '' @ (case currentFilter s of None \<Rightarrow> str ''undefined'' | Some f \<Rightarrow> f)
                     @ str '' tasks.'')\<rparr>
         else s\<lparr>tasksContainer := TaskItems filteredTasks\<rparr>)"

definition render :: "app \<Rightarrow> app" where
  "render s = updateStats (renderTasks s)"

text \<open>\<open>saveTasks\<close> catches what \<open>setItem\<close> throws and only logs it.\<close>

definition saveTasks :: "app \<Rightarrow> app" where
  "saveTasks s =
     (case setItem (str ''tasks'') (JSON_stringify_tasks (tasks s)) (localStorage s) of
        Inl error \<Rightarrow> s
      | Inr st \<Rightarrow> s\<lparr>localStorage := st\<rparr>)"

text \<open>
  \<open>loadTasks\<close> gives what \<open>JSON.parse\<close> makes of the stored text, whatever its
  shape, and the empty array when there is no entry, when the entry is the empty string
  or when \<open>getItem\<close> or \<open>JSON.parse\<close> throws. The constructor makes it the
  collection; the state here keeps the collection as a list of tasks, which a loaded
  value stands for exactly when it is \<open>js_of_tasks\<close> of that list.
\<close>

definition loadTasks :: "app \<Rightarrow> jsval" where
  "loadTasks s =
     (case getItem (str ''tasks'') (localStorage s) of
        Inl error \<Rightarrow> JArray []
      | Inr saved \<Rightarrow>
          (case saved of
             None \<Rightarrow> JArray []
           | Some stored \<Rightarrow>
               if stored = [] then JArray []
               else (case JSON_parse stored of Inl error \<Rightarrow> JArray [] | Inr v \<Rightarrow> v)))"

text \<open>
  \<open>handleAddTask\<close>, with the two readings of the clock as arguments: \<open>now\<close> is
  \<open>Date.now()\<close> and \<open>isoNow\<close> is \<open>new Date().toISOString()\<close>. No handler has a
  \<open>return\<close> with a value, so every call evaluates to \<open>undefined\<close>. The call of
  \<open>preventDefault\<close> keeps the browser from sending the form and touches nothing here.
\<close>

definition handleAddTask :: "int \<Rightarrow> jsstring \<Rightarrow> app \<Rightarrow> jsval \<times> app" where
  "handleAddTask now isoNow s =
     (let taskText = trim (taskInput s)
      in if taskText = [] then
           (JUndefined, showError (str ''Please enter a task description'') s)
         else if length taskText > 200 then
           (JUndefined, showError (str ''Task description must be 200 characters or less'') s)
         else
           let task = \<lparr>id' = now, text' = taskText, completed = False, createdAt = isoNow\<rparr>;
               s1 = s\<lparr>tasks := task # tasks s\<rparr>;
               s2 = render (saveTasks s1)
           in (JUndefined, s2\<lparr>taskInput := [], taskInputFocused := True\<rparr>))"

text \<open>
  \<open>Array.prototype.find\<close> gives the first element that passes the test; the assignment
  through it changes that element of the array, here addressed by its index.
\<close>

fun findIndex :: "('a \<Rightarrow> bool) \<Rightarrow> 'a list \<Rightarrow> nat option" where
  "findIndex P [] = None"
| "findIndex P (x # xs) =
     (if P x then Some 0 else (case findIndex P xs of None \<Rightarrow> None | Some i \<Rightarrow> Some (Suc i)))"

definition handleToggleComplete :: "int \<Rightarrow> app \<Rightarrow> jsval \<times> app" where
  "handleToggleComplete taskId s =
     (case findIndex (\<lambda>t. id' t = taskId) (tasks s) of
        None \<Rightarrow> (JUndefined, s)
      | Some i \<Rightarrow>
          let task = tasks s ! i;
              s1 = s\<lparr>tasks := (tasks s)[i := task\<lparr>completed := \<not> completed task\<rparr>]\<rparr>
          in (JUndefined, render (saveTasks s1)))"

definition handleDeleteTask :: "int \<Rightarrow> app \<Rightarrow> jsval \<times> app" where
  "handleDeleteTask taskId s =
     (JUndefined, render (saveTasks (s\<lparr>tasks := filter (\<lambda>t. id' t \<noteq> taskId) (tasks s)\<rparr>)))"

text \<open>\<open>confirmed\<close> is the answer of the \<open>confirm\<close> dialog.\<close>

definition handleClearCompleted :: "bool \<Rightarrow> app \<Rightarrow> jsval \<times> app" where
  "handleClearCompleted confirmed s =
     (if confirmed then
        (JUndefined, render (saveTasks (s\<lparr>tasks := filter (\<lambda>t. \<not> completed t) (tasks s)\<rparr>)))
      else (JUndefined, s))"

definition handleFilterChange :: "jsstring option \<Rightarrow> app \<Rightarrow> jsval \<times> app" where
  "handleFilterChange filterValue s =
     (JUndefined, render (s\<lparr>currentFilter := filterValue, activeFilterButton := filterValue\<rparr>))"

subsection \<open>The listeners of the form and of the clear button\<close>

text \<open>
  The \<open>submit\<close> listener tests the trimmed input itself before it calls
  \<open>handleAddTask\<close>. A disabled button sends no \<open>click\<close>; \<open>updateStats\<close>
  disables the clear button whenever no task is completed.
\<close>

definition taskForm_submit :: "int \<Rightarrow> jsstring \<Rightarrow> app \<Rightarrow> app" where
  "taskForm_submit now isoNow s =
     (let taskText = trim (taskInput s)
      in if taskText = [] then showError (str ''Please enter a task description'') s
         else snd (handleAddTask now isoNow s))"

definition clearCompletedBtn_click :: "bool \<Rightarrow> app \<Rightarrow> app" where
  "clearCompletedBtn_click confirmed s =
     (if clearCompletedBtnDisabled s then s else snd (handleClearCompleted confirmed s))"

subsection \<open>Theme\<close>







section \<open>Sequences of user actions\<close>

text \<open>
  The page before anything is stored or typed: what the constructor starts from when
  \<open>localStorage\<close> is empty and writable.
\<close>

definition blank_storage :: local_storage where
  "blank_storage = \<lparr>items = Map.empty, denied = False, accepts = (\<lambda>k v. True)\<rparr>"

definition blank_app :: app where
  "blank_app =
     \<lparr>tasks = [], currentFilter = Some (str ''all''), localStorage = blank_storage,
      taskInput = [], taskInputFocused = False, errorMessage = [], errorShown = False,
      hideTimers = 0, activeFilterButton = Some (str ''all''),
      tasksContainer = EmptyState [], totalTasksEl = 0, completedTasksEl = 0,
      remainingTasksEl = 0, clearCompletedBtnDisabled = False,
      darkModeClass = False, lightModeClass = False,
      toggleAriaLabel = [], toggleTitle = [], toggleIcon = []\<rparr>"

text \<open>
  The four operations on the collection as the user triggers them: submitting a text
  (typed into the input, at the given clock readings), toggling or deleting the task
  item with a given id, and clearing the completed tasks (with the dialog's answer).
\<close>

datatype operation =
    AddTask jsstring int jsstring
  | ToggleComplete int
  | DeleteTask int
  | ClearCompleted bool

fun perform :: "operation \<Rightarrow> app \<Rightarrow> app" where
  "perform (AddTask typed now isoNow) s = snd (handleAddTask now isoNow (s\<lparr>taskInput := typed\<rparr>))"
| "perform (ToggleComplete taskId) s = snd (handleToggleComplete taskId s)"
| "perform (DeleteTask taskId) s = snd (handleDeleteTask taskId s)"
| "perform (ClearCompleted confirmed) s = snd (handleClearCompleted confirmed s)"

fun perform_all :: "operation list \<Rightarrow> app \<Rightarrow> app" where
  "perform_all [] s = s"
| "perform_all (x # xs) s = perform_all xs (perform x s)"

text \<open>
  Every submission happens at a reading of \<open>Date.now()\<close> that is not the id of a task
  then in the collection.
\<close>

fun clock_fresh :: "operation list \<Rightarrow> app \<Rightarrow> bool" where
  "clock_fresh [] s = True"
| "clock_fresh (AddTask typed now isoNow # xs) s =
     (now \<notin> set (map id' (tasks s)) \<and> clock_fresh xs (perform (AddTask typed now isoNow) s))"
| "clock_fresh (x # xs) s = clock_fresh xs (perform x s)"

subsection \<open>Sample data\<close>

definition demo_tasks :: "task list" where
  "demo_tasks =
     [\<lparr>id' = 3, text' = str ''c'', completed = True, createdAt = []\<rparr>,
      \<lparr>id' = 2, text' = str ''b'', completed = False, createdAt = []\<rparr>,
      \<lparr>id' = 1, text' = str ''a'', completed = True, createdAt = []\<rparr>]"

text \<open>Two tasks created in the same millisecond, after an older one.\<close>

definition twin_tasks :: "task list" where
  "twin_tasks =
     [\<lparr>id' = 5, text' = str ''new'', completed = False, createdAt = []\<rparr>,
      \<lparr>id' = 5, text' = str ''twin'', completed = False, createdAt = []\<rparr>,
      \<lparr>id' = 4, text' = str ''old'', completed = False, createdAt = []\<rparr>]"

text \<open>An empty store that takes no write: its quota is used up.\<close>

definition full_storage :: local_storage where
  "full_storage = \<lparr>items = Map.empty, denied = False, accepts = (\<lambda>k v. False)\<rparr>"

text \<open>
  The run the specification describes: add "Buy milk", add "Walk dog", toggle "Buy milk".
\<close>

definition after_scenario :: app where
  "after_scenario =
     perform_all
       [AddTask (str ''Buy milk'') 1 (str ''t1''), AddTask (str ''Walk dog'') 2 (str ''t2''),
        ToggleComplete 1]
       blank_app"

section \<open>Reading back what \<open>JSON.stringify\<close> wrote\<close>

subsection \<open>Strings\<close>

lemma unat_offset:
  "b + n < 65536 \<Longrightarrow> unat (of_nat b + of_nat n :: code_unit) = b + n"
  by (simp add: unat_word_ariths unat_of_nat)

lemma unat_digit: "n < 16 \<Longrightarrow> unat (0x30 + of_nat n :: code_unit) = 48 + n"
  using unat_offset [of 48 n] by simp

lemma unat_letter: "n < 16 \<Longrightarrow> unat (0x61 + of_nat n :: code_unit) = 97 + n"
  using unat_offset [of 97 n] by simp

lemma hex_value_hexdigit: "n < 16 \<Longrightarrow> hex_value (hexdigit n) = Some n"
proof (cases "n < 10")
  case True
  then have "unat (0x30 + of_nat n :: code_unit) = 48 + n"
    by (simp add: unat_digit)
  with True show ?thesis
    by (simp add: hexdigit_def hex_value_def word_le_nat_alt)
next
  case False
  assume "n < 16"
  with False have "unat (0x61 + of_nat (n - 10) :: code_unit) = 87 + n"
    using unat_letter [of "n - 10"] by simp
  with False \<open>n < 16\<close> show ?thesis
    by (simp add: hexdigit_def hex_value_def word_le_nat_alt)
qed

lemma hex_digits_value:
  fixes n :: nat
  shows "((n div 4096 * 16 + n div 256 mod 16) * 16 + n div 16 mod 16) * 16 + n mod 16 = n"
proof -
  have a: "n div 4096 = n div 256 div 16" "n div 256 = n div 16 div 16"
    by (simp_all add: div_mult2_eq [symmetric])
  have "n div 4096 * 16 + n div 256 mod 16 = n div 256"
    unfolding a(1) by (rule div_mult_mod_eq)
  moreover have "n div 256 * 16 + n div 16 mod 16 = n div 16"
    unfolding a(2) by (rule div_mult_mod_eq)
  moreover have "n div 16 * 16 + n mod 16 = n"
    by (rule div_mult_mod_eq)
  ultimately show ?thesis by simp
qed

lemma unat_code_unit_bound: "unat (c :: code_unit) < 65536"
  using unsigned_less [of c, where ?'a = nat] by simp

lemma hex4_value:
  "(of_nat (((unat c div 4096 * 16 + unat c div 256 mod 16) * 16 + unat c div 16 mod 16) * 16
      + unat c mod 16) :: code_unit) = c"
  by (simp only: hex_digits_value) simp

lemma parse_unicode_escape:
  "parse_chars (unicode_escape c @ rest)
     = (case parse_chars rest of None \<Rightarrow> None | Some (x, r) \<Rightarrow> Some (c # x, r))"
proof -
  have b: "unat c div 4096 < 16" "unat c div 256 mod 16 < 16" "unat c div 16 mod 16 < 16"
    "unat c mod 16 < 16"
    using unat_code_unit_bound [of c] by simp_all
  have "parse_chars (unicode_escape c @ rest)
     = (case parse_chars rest of None \<Rightarrow> None
        | Some (x, r) \<Rightarrow> Some (of_nat (((unat c div 4096 * 16 + unat c div 256 mod 16) * 16
            + unat c div 16 mod 16) * 16 + unat c mod 16) # x, r))"
    by (simp add: unicode_escape_def hex_value_hexdigit [OF b(1)] hex_value_hexdigit [OF b(2)]
        hex_value_hexdigit [OF b(3)] hex_value_hexdigit [OF b(4)] del: of_nat_add of_nat_mult)
  then show ?thesis
    by (simp only: hex4_value)
qed

lemma surrogate_plain:
  "is_high_surrogate c \<or> is_low_surrogate c \<Longrightarrow> c \<noteq> 0x22 \<and> c \<noteq> 0x5C \<and> \<not> c < 0x20"
  by (auto simp: is_high_surrogate_def is_low_surrogate_def word_le_nat_alt word_less_nat_alt)

lemma parse_plain_char:
  "c \<noteq> 0x22 \<Longrightarrow> c \<noteq> 0x5C \<Longrightarrow> \<not> c < 0x20
   \<Longrightarrow> parse_chars (c # rest)
       = (case parse_chars rest of None \<Rightarrow> None | Some (x, r) \<Rightarrow> Some (c # x, r))"
  by simp

lemma parse_short_escape:
  "unescape e = Some u \<Longrightarrow> e \<noteq> 0x75
   \<Longrightarrow> parse_chars (0x5C # e # rest)
       = (case parse_chars rest of None \<Rightarrow> None | Some (x, r) \<Rightarrow> Some (u # x, r))"
  by simp

lemma parse_closing_quote: "parse_chars (0x22 # rest) = Some ([], rest)"
  by simp

lemma parse_quote_chars: "parse_chars (quote_chars s @ 0x22 # rest) = Some (s, rest)"
proof (induction s rule: quote_chars.induct)
  case 1
  show ?case by simp
next
  case (2 c cs)
  let ?ih = "parse_chars (quote_chars cs @ 0x22 # rest) = Some (cs, rest)"
  consider (b) "c = 0x08" | (t) "c = 0x09" | (n) "c = 0x0A" | (f) "c = 0x0C" | (r) "c = 0x0D"
    | (q) "c = 0x22" | (s) "c = 0x5C"
    | (other) "c \<noteq> 0x08" "c \<noteq> 0x09" "c \<noteq> 0x0A" "c \<noteq> 0x0C" "c \<noteq> 0x0D" "c \<noteq> 0x22" "c \<noteq> 0x5C"
    by blast
  then show ?case
  proof cases
    case b
    with "2.IH"(1) show ?thesis
      by (simp add: parse_short_escape unescape_def del: parse_chars.simps)
  next
    case t
    with "2.IH"(2) show ?thesis
      by (simp add: parse_short_escape unescape_def del: parse_chars.simps)
  next
    case n
    with "2.IH"(3) show ?thesis
      by (simp add: parse_short_escape unescape_def del: parse_chars.simps)
  next
    case f
    with "2.IH"(4) show ?thesis
      by (simp add: parse_short_escape unescape_def del: parse_chars.simps)
  next
    case r
    with "2.IH"(5) show ?thesis
      by (simp add: parse_short_escape unescape_def del: parse_chars.simps)
  next
    case q
    with "2.IH"(6) show ?thesis
      by (simp add: parse_short_escape unescape_def del: parse_chars.simps)
  next
    case s
    with "2.IH"(7) show ?thesis
      by (simp add: parse_short_escape unescape_def del: parse_chars.simps)
  next
    case other
    note ih = "2.IH"(8-12) [OF other]
    show ?thesis
    proof (cases "c < 0x20")
      case True
      with other ih(1) show ?thesis
        by (simp add: parse_unicode_escape del: parse_chars.simps)
    next
      case False
      note ih' = ih(2-5) [OF False]
      show ?thesis
      proof (cases "is_high_surrogate c")
        case high: True
        show ?thesis
        proof (cases cs)
          case Nil
          with other False high show ?thesis
            by (simp add: parse_unicode_escape parse_closing_quote del: parse_chars.simps)
        next
          case (Cons d ds)
          show ?thesis
          proof (cases "is_low_surrogate d")
            case True
            have pd: "d \<noteq> 0x22" "d \<noteq> 0x5C" "\<not> d < 0x20"
              using True surrogate_plain [of d] by simp_all
            from ih'(1) [OF high Cons True] other False high Cons True pd show ?thesis
              by (simp add: parse_plain_char del: parse_chars.simps)
          next
            case nl: False
            from ih'(2) [OF high Cons nl] other False high Cons nl show ?thesis
              by (simp add: parse_unicode_escape del: parse_chars.simps)
          qed
        qed
      next
        case nh: False
        show ?thesis
        proof (cases "is_low_surrogate c")
          case True
          from ih'(3) [OF nh True] other False nh True show ?thesis
            by (simp add: parse_unicode_escape del: parse_chars.simps)
        next
          case nl: False
          from ih'(4) [OF nh nl] other False nh nl show ?thesis
            by (simp add: parse_plain_char del: parse_chars.simps)
        qed
      qed
    qed
  qed
qed

lemma parse_value_string: "parse_value (QuoteJSONString x @ rest) = Some (JString x, rest)"
  by (simp add: QuoteJSONString_def parse_value.simps parse_quote_chars)

subsection \<open>Numbers\<close>

lemma digit_char:
  assumes "d < 10"
  shows "is_digit (0x30 + of_nat d)" and "unat (0x30 + of_nat d :: code_unit) - 48 = d"
    and "(0x30 + of_nat d :: code_unit) = 0x30 \<longleftrightarrow> d = 0"
proof -
  from assms have u: "unat (0x30 + of_nat d :: code_unit) = 48 + d"
    by (simp add: unat_digit)
  with assms show "is_digit (0x30 + of_nat d)"
    by (simp add: is_digit_def word_le_nat_alt)
  from u show "unat (0x30 + of_nat d :: code_unit) - 48 = d"
    by simp
  have "(0x30 + of_nat d :: code_unit) = 0x30 \<longleftrightarrow> unat (0x30 + of_nat d :: code_unit) = unat (0x30 :: code_unit)"
    by (simp only: word_unat_eq_iff)
  with u show "(0x30 + of_nat d :: code_unit) = 0x30 \<longleftrightarrow> d = 0"
    by simp
qed

lemma digits_all: "\<forall>c\<in>set (digits n). is_digit c"
proof (induction n rule: digits.induct)
  case (1 n)
  show ?case
  proof (cases "n < 10")
    case True
    then show ?thesis
      by (subst digits.simps) (simp add: digit_char(1))
  next
    case False
    with 1 show ?thesis
      by (subst digits.simps) (simp add: digit_char(1))
  qed
qed

lemma digits_value_snoc: "digits_value (ds @ [c]) = 10 * digits_value ds + (unat c - 48)"
  by (simp add: digits_value_def)

lemma digits_value_digits: "digits_value (digits n) = n"
proof (induction n rule: digits.induct)
  case (1 n)
  show ?case
  proof (cases "n < 10")
    case True
    then show ?thesis
      by (subst digits.simps) (simp add: digits_value_def digit_char(2))
  next
    case False
    with 1 show ?thesis
      by (subst digits.simps) (simp add: digits_value_snoc digit_char(2))
  qed
qed

lemma digits_first: "\<exists>c cs. digits n = c # cs \<and> is_digit c \<and> (c = 0x30 \<longrightarrow> n = 0)"
proof (induction n rule: digits.induct)
  case (1 n)
  show ?case
  proof (cases "n < 10")
    case True
    then show ?thesis
      using digit_char(1,3) [OF True] by (subst digits.simps) simp
  next
    case False
    with 1 obtain c cs where "digits (n div 10) = c # cs" "is_digit c" "c = 0x30 \<longrightarrow> n div 10 = 0"
      by blast
    with False show ?thesis
      by (subst digits.simps) auto
  qed
qed

lemma digits_zero: "digits 0 = [0x30]"
  by (subst digits.simps) simp

lemma takeWhile_digits:
  "\<not> is_digit r \<Longrightarrow> takeWhile is_digit (digits n @ r # rs) = digits n"
  "\<not> is_digit r \<Longrightarrow> dropWhile is_digit (digits n @ r # rs) = r # rs"
  using digits_all [of n] by (simp_all add: takeWhile_append2 dropWhile_append2)

lemma parse_int_part_digits:
  assumes "\<not> is_digit r"
  shows "parse_int_part (digits n @ r # rs) = Some (n, r # rs)"
proof (cases "n = 0")
  case True
  then show ?thesis
    by (simp add: digits_zero parse_int_part_def)
next
  case False
  obtain c cs where d: "digits n = c # cs" "is_digit c" "c = 0x30 \<longrightarrow> n = 0"
    using digits_first by blast
  with False have c: "c \<noteq> 0x30" by blast
  have "parse_int_part ((c # cs) @ r # rs)
          = Some (digits_value (takeWhile is_digit ((c # cs) @ r # rs)),
                  dropWhile is_digit ((c # cs) @ r # rs))"
    using c d(2) by (simp add: parse_int_part_def)
  then show ?thesis
    unfolding d(1) [symmetric] by (simp add: takeWhile_digits [OF assms] digits_value_digits)
qed

lemma parse_number_toString:
  assumes "\<not> is_digit r" and "r \<noteq> 0x2E" and "r \<noteq> 0x65" and "r \<noteq> 0x45"
  shows "parse_number (Number_toString i @ r # rs) = Some (of_int i, r # rs)"
proof -
  have f: "parse_fraction (r # rs) = Some (0, r # rs)"
    using assms by (simp add: parse_fraction_def)
  have e: "parse_exponent (r # rs) = Some (0, r # rs)"
    using assms by (simp add: parse_exponent_def)
  show ?thesis
  proof (cases "i < 0")
    case True
    then have "Number_toString i @ r # rs = 0x2D # (digits (nat (- i)) @ r # rs)"
      by (simp add: Number_toString_def)
    moreover have "(of_nat (nat (- i)) :: rat) = - of_int i"
      using True by simp
    ultimately show ?thesis
      by (simp add: parse_number_def parse_int_part_digits [OF assms(1)] f e)
  next
    case False
    obtain c cs where d: "digits (nat i) = c # cs" "is_digit c"
      using digits_first by blast
    then have c: "c \<noteq> 0x2D"
      by (auto simp: is_digit_def)
    from False have t: "Number_toString i @ r # rs = digits (nat i) @ r # rs"
      by (simp add: Number_toString_def)
    have "(case digits (nat i) @ r # rs of [] \<Rightarrow> (False, digits (nat i) @ r # rs)
           | c # cs \<Rightarrow> if c = 0x2D then (True, cs) else (False, digits (nat i) @ r # rs))
          = (False, digits (nat i) @ r # rs)"
      using c by (simp add: d(1))
    moreover have "(of_nat (nat i) :: rat) = of_int i"
      using False by simp
    ultimately show ?thesis
      unfolding t by (simp add: parse_number_def parse_int_part_digits [OF assms(1)] f e)
  qed
qed

subsection \<open>Task objects and arrays of them\<close>

lemma skip_ws_Cons: "\<not> is_json_ws c \<Longrightarrow> skip_ws (c # cs) = c # cs"
  by (simp add: skip_ws_def)

lemma punctuation:
  "str ''{'' = [0x7B]" "str ''}'' = [0x7D]" "str ''['' = [0x5B]" "str '']'' = [0x5D]"
  "str '':'' = [0x3A]" "str '','' = [0x2C]"
  by (simp_all add: str_def)

lemma not_ws:
  "\<not> is_json_ws 0x22" "\<not> is_json_ws 0x2C" "\<not> is_json_ws 0x3A" "\<not> is_json_ws 0x5B"
  "\<not> is_json_ws 0x5D" "\<not> is_json_ws 0x7B" "\<not> is_json_ws 0x7D" "\<not> is_json_ws 0x2D"
  "is_digit c \<Longrightarrow> \<not> is_json_ws c"
  by (auto simp: is_json_ws_def is_digit_def)

lemma skip_ws_string: "skip_ws (QuoteJSONString x @ rest) = QuoteJSONString x @ rest"
  by (simp add: QuoteJSONString_def skip_ws_Cons not_ws)

lemma number_first:
  "\<exists>c cs. Number_toString i = c # cs \<and> (is_digit c \<or> c = 0x2D)"
proof (cases "i < 0")
  case True
  then show ?thesis by (simp add: Number_toString_def)
next
  case False
  then show ?thesis
    using digits_first [of "nat i"] by (auto simp: Number_toString_def)
qed

lemma skip_ws_number: "skip_ws (Number_toString i @ rest) = Number_toString i @ rest"
proof -
  obtain c cs where "Number_toString i = c # cs" "is_digit c \<or> c = 0x2D"
    using number_first by blast
  then show ?thesis
    by (auto simp: skip_ws_Cons not_ws)
qed

lemma skip_ws_bool: "skip_ws (stringify_bool b @ rest) = stringify_bool b @ rest"
  by (simp add: stringify_bool_def str_def skip_ws_Cons is_json_ws_def)

lemma parse_value_number:
  assumes "is_digit c \<or> c = 0x2D"
  shows "parse_value (c # cs)
           = (case parse_number (c # cs) of None \<Rightarrow> None | Some (x, r) \<Rightarrow> Some (JNumber x, r))"
proof -
  from assms have "c \<noteq> 0x5B" "c \<noteq> 0x7B" "c \<noteq> 0x22" "c \<noteq> 0x74" "c \<noteq> 0x66" "c \<noteq> 0x6E"
    by (auto simp: is_digit_def)
  then show ?thesis
    by (simp add: parse_value.simps str_def)
qed

lemma parse_value_number_text:
  assumes "\<not> is_digit r" and "r \<noteq> 0x2E" and "r \<noteq> 0x65" and "r \<noteq> 0x45"
  shows "parse_value (Number_toString i @ r # rs) = Some (JNumber (of_int i), r # rs)"
proof -
  obtain c cs where n: "Number_toString i = c # cs" "is_digit c \<or> c = 0x2D"
    using number_first by blast
  have "parse_value ((c # cs) @ r # rs)
          = (case parse_number ((c # cs) @ r # rs) of None \<Rightarrow> None
             | Some (x, r) \<Rightarrow> Some (JNumber x, r))"
    using parse_value_number [OF n(2)] by simp
  then show ?thesis
    unfolding n(1) [symmetric] by (simp add: parse_number_toString [OF assms])
qed

lemma parse_value_bool: "parse_value (stringify_bool b @ rest) = Some (JBoolean b, rest)"
  by (cases b) (simp_all add: stringify_bool_def str_def parse_value.simps)

lemma parse_members_more:
  assumes "parse_value vt = Some (v, 0x2C # tail)" and "skip_ws vt = vt"
    and "skip_ws tail = tail" and "length tail < length vt"
  shows "parse_members (QuoteJSONString k @ 0x3A # vt)
           = (case parse_members tail of None \<Rightarrow> None | Some (ms, r2) \<Rightarrow> Some ((k, v) # ms, r2))"
  using assms
  by (subst parse_members.simps)
     (simp add: QuoteJSONString_def parse_quote_chars skip_ws_Cons not_ws)

lemma parse_members_last:
  assumes "parse_value vt = Some (v, 0x7D # rest)" and "skip_ws vt = vt"
  shows "parse_members (QuoteJSONString k @ 0x3A # vt) = Some ([(k, v)], rest)"
  using assms
  by (subst parse_members.simps)
     (simp add: QuoteJSONString_def parse_quote_chars skip_ws_Cons not_ws)

lemma parse_value_object:
  "parse_value (0x7B # QuoteJSONString k @ cs)
     = (case parse_members (QuoteJSONString k @ cs) of None \<Rightarrow> None
        | Some (ms, r) \<Rightarrow> Some (JObject (object_of ms), r))"
  by (simp add: parse_value.simps QuoteJSONString_def skip_ws_Cons not_ws)

lemma stringify_task_shape:
  "stringify_task t @ rest
     = 0x7B # QuoteJSONString (str ''id'') @ 0x3A # (Number_toString (id' t) @ 0x2C #
         (QuoteJSONString (str ''text'') @ 0x3A # (QuoteJSONString (text' t) @ 0x2C #
           (QuoteJSONString (str ''completed'') @ 0x3A # (stringify_bool (completed t) @ 0x2C #
             (QuoteJSONString (str ''createdAt'') @ 0x3A # (QuoteJSONString (createdAt t) @ 0x7D # rest)))))))"
  by (simp add: stringify_task_def punctuation)

lemma object_of_task:
  "object_of [(str ''id'', a), (str ''text'', b), (str ''completed'', c), (str ''createdAt'', d)]
     = [(str ''id'', a), (str ''text'', b), (str ''completed'', c), (str ''createdAt'', d)]"
  by (simp add: object_of_def str_def)

lemma parse_value_task: "parse_value (stringify_task t @ rest) = Some (js_of_task t, rest)"
proof -
  let ?m4 = "QuoteJSONString (str ''createdAt'') @ 0x3A # (QuoteJSONString (createdAt t) @ 0x7D # rest)"
  let ?m3 = "QuoteJSONString (str ''completed'') @ 0x3A # (stringify_bool (completed t) @ 0x2C # ?m4)"
  let ?m2 = "QuoteJSONString (str ''text'') @ 0x3A # (QuoteJSONString (text' t) @ 0x2C # ?m3)"
  let ?m1 = "QuoteJSONString (str ''id'') @ 0x3A # (Number_toString (id' t) @ 0x2C # ?m2)"
  have p4: "parse_members ?m4 = Some ([(str ''createdAt'', JString (createdAt t))], rest)"
    by (rule parse_members_last) (simp_all add: parse_value_string skip_ws_string)
  have p3: "parse_members ?m3
      = Some ([(str ''completed'', JBoolean (completed t)),
               (str ''createdAt'', JString (createdAt t))], rest)"
    by (subst parse_members_more [where v = "JBoolean (completed t)" and tail = ?m4])
       (simp_all add: parse_value_bool skip_ws_bool skip_ws_string p4)
  have p2: "parse_members ?m2
      = Some ([(str ''text'', JString (text' t)), (str ''completed'', JBoolean (completed t)),
               (str ''createdAt'', JString (createdAt t))], rest)"
    by (subst parse_members_more [where v = "JString (text' t)" and tail = ?m3])
       (simp_all add: parse_value_string skip_ws_string p3)
  have digit_comma: "\<not> is_digit 0x2C"
    by (simp add: is_digit_def)
  have p1: "parse_members ?m1
      = Some ([(str ''id'', JNumber (of_int (id' t))), (str ''text'', JString (text' t)),
               (str ''completed'', JBoolean (completed t)),
               (str ''createdAt'', JString (createdAt t))], rest)"
    by (subst parse_members_more [where v = "JNumber (of_int (id' t))" and tail = ?m2])
       (simp_all add: parse_value_number_text digit_comma skip_ws_number skip_ws_string p2)
  show ?thesis
    unfolding stringify_task_shape
    by (simp only: parse_value_object p1 option.case prod.case object_of_task js_of_task_def)
qed

lemma stringify_task_first: "\<exists>cs. stringify_task t @ rest = 0x7B # cs"
  by (simp add: stringify_task_def punctuation)

lemma skip_ws_task: "skip_ws (stringify_task t @ rest) = stringify_task t @ rest"
proof -
  obtain cs where "stringify_task t @ rest = 0x7B # cs"
    using stringify_task_first by blast
  then show ?thesis
    by (simp add: skip_ws_Cons not_ws)
qed

lemma join_comma_Cons:
  "join_comma (x # xs) @ rest = x @ (if xs = [] then rest else 0x2C # (join_comma xs @ rest))"
  by (cases xs) (simp_all add: punctuation)

lemma parse_elements_tasks:
  "parse_elements (join_comma (map stringify_task (t # ts)) @ 0x5D # rest)
     = Some (map js_of_task (t # ts), rest)"
proof (induction ts arbitrary: t)
  case Nil
  show ?case
    by (subst parse_elements.simps)
       (simp add: parse_value_task skip_ws_Cons not_ws)
next
  case (Cons u us)
  let ?tail = "join_comma (map stringify_task (u # us)) @ 0x5D # rest"
  have shape: "join_comma (map stringify_task (t # u # us)) @ 0x5D # rest
      = stringify_task t @ 0x2C # ?tail"
    by (simp add: punctuation)
  have skip: "skip_ws ?tail = ?tail"
    using skip_ws_task [of u] by (simp add: join_comma_Cons)
  have "parse_elements (stringify_task t @ 0x2C # ?tail)
      = Some (js_of_task t # map js_of_task (u # us), rest)"
    by (subst parse_elements.simps)
       (simp add: parse_value_task skip_ws_Cons not_ws skip Cons.IH del: join_comma.simps list.map)
  then show ?case
    unfolding shape by simp
qed

lemma parse_value_tasks:
  "parse_value (JSON_stringify_tasks ts) = Some (js_of_tasks ts, [])"
proof (cases ts)
  case Nil
  then show ?thesis
    by (simp add: JSON_stringify_tasks_def punctuation parse_value.simps skip_ws_Cons not_ws
        js_of_tasks_def)
next
  case (Cons t us)
  obtain cs where first: "join_comma (map stringify_task (t # us)) @ [0x5D] = 0x7B # cs"
    using stringify_task_first [of t] by (auto simp: join_comma_Cons)
  have "parse_elements (0x7B # cs) = Some (map js_of_task (t # us), [])"
    unfolding first [symmetric] by (rule parse_elements_tasks)
  then have "parse_value (0x5B # 0x7B # cs) = Some (JArray (map js_of_task (t # us)), [])"
    by (simp add: parse_value.simps skip_ws_Cons not_ws)
  then show ?thesis
    unfolding Cons JSON_stringify_tasks_def js_of_tasks_def punctuation
    using first by simp
qed

lemma JSON_parse_stringify: "JSON_parse (JSON_stringify_tasks ts) = Inr (js_of_tasks ts)"
proof -
  have "skip_ws (JSON_stringify_tasks ts) = JSON_stringify_tasks ts"
    by (simp add: JSON_stringify_tasks_def punctuation skip_ws_Cons not_ws)
  then show ?thesis
    by (simp add: JSON_parse_def parse_value_tasks skip_ws_def)
qed

lemma JSON_stringify_nonempty: "JSON_stringify_tasks ts \<noteq> []"
  by (simp add: JSON_stringify_tasks_def punctuation)

lemma js_of_tasks_inj: "js_of_tasks ts = js_of_tasks us \<Longrightarrow> ts = us"
proof -
  have "inj js_of_task"
    by (rule injI) (simp add: js_of_task_def task.equality)
  then show "js_of_tasks ts = js_of_tasks us \<Longrightarrow> ts = us"
    by (simp add: js_of_tasks_def inj_map_eq_map)
qed

subsection \<open>Every parser consumes input, so the length tests never fail\<close>

lemma length_skip_ws_le: "length (skip_ws s) \<le> length s"
  by (simp add: skip_ws_def length_dropWhile_le)

lemma parse_chars_shorter: "parse_chars s = Some (x, r) \<Longrightarrow> length r < length s"
proof (induction "length s" arbitrary: s x r rule: less_induct)
  case less
  show ?case
  proof (cases s)
    case Nil
    with less.prems show ?thesis by simp
  next
    case (Cons c cs)
    with less.prems show ?thesis
      by (auto split: if_splits list.splits option.splits dest!: less.hyps [rotated])
  qed
qed

lemma parse_int_part_shorter: "parse_int_part s = Some (i, r) \<Longrightarrow> length r < length s"
  using length_dropWhile_le [of is_digit "tl s"]
  by (auto simp: parse_int_part_def split: list.splits if_splits)

lemma parse_fraction_shorter: "parse_fraction s = Some (f, r) \<Longrightarrow> length r \<le> length s"
  by (auto simp: parse_fraction_def Let_def le_SucI length_dropWhile_le split: list.splits if_splits)

lemma parse_sign_shorter: "parse_sign s = (b, r) \<Longrightarrow> length r \<le> length s"
  by (auto simp: parse_sign_def split: list.splits if_splits)

lemma parse_exponent_shorter: "parse_exponent s = Some (e, r) \<Longrightarrow> length r \<le> length s"
proof -
  assume a: "parse_exponent s = Some (e, r)"
  show ?thesis
  proof (cases s)
    case Nil
    with a show ?thesis by (simp add: parse_exponent_def)
  next
    case (Cons c cs)
    obtain b s1 where ps: "parse_sign cs = (b, s1)"
      by (cases "parse_sign cs")
    then have "length s1 \<le> length cs"
      by (rule parse_sign_shorter)
    moreover have "length (dropWhile is_digit s1) \<le> length s1"
      by (rule length_dropWhile_le)
    ultimately show ?thesis
      using a Cons ps by (auto simp: parse_exponent_def Let_def split: if_splits)
  qed
qed

lemma parse_number_shorter: "parse_number s = Some (x, r) \<Longrightarrow> length r < length s"
proof -
  assume a: "parse_number s = Some (x, r)"
  define s1 where "s1 = (case s of [] \<Rightarrow> s | c # cs \<Rightarrow> if c = 0x2D then cs else s)"
  have l1: "length s1 \<le> length s"
    by (simp add: s1_def split: list.splits)
  from a obtain i s2 f s3 e where p: "parse_int_part s1 = Some (i, s2)"
      "parse_fraction s2 = Some (f, s3)" "parse_exponent s3 = Some (e, r)"
    by (auto simp: parse_number_def s1_def split: list.splits if_splits option.splits)
  from p(1) have "length s2 < length s1" by (rule parse_int_part_shorter)
  moreover from p(2) have "length s3 \<le> length s2" by (rule parse_fraction_shorter)
  moreover from p(3) have "length r \<le> length s3" by (rule parse_exponent_shorter)
  ultimately show ?thesis using l1 by simp
qed

lemma skip_ws_Cons_shorter: "skip_ws s = d # ds \<Longrightarrow> length ds < length s"
  using length_skip_ws_le [of s] by simp

lemma literal_shorter: "take n (c # cs) = lit \<Longrightarrow> length lit = n \<Longrightarrow> 0 < n
  \<Longrightarrow> length (drop n (c # cs)) < length (c # cs)"
  by auto

lemma parse_shorter:
  "(\<forall>v r. parse_value s = Some (v, r) \<longrightarrow> length r < length s)
   \<and> (\<forall>vs r. parse_elements s = Some (vs, r) \<longrightarrow> length r < length s)
   \<and> (\<forall>ms r. parse_members s = Some (ms, r) \<longrightarrow> length r < length s)"
proof (induction "length s" arbitrary: s rule: less_induct)
  case less
  have ih_elements: "length r < length y"
    if "length y < length s" "parse_elements y = Some (vs, r)" for y vs r
    using less.hyps [OF that(1)] that(2) by blast
  have ih_members: "length r < length y"
    if "length y < length s" "parse_members y = Some (ms, r)" for y ms r
    using less.hyps [OF that(1)] that(2) by blast
  have ih_value: "length r < length y"
    if "length y < length s" "parse_value y = Some (v, r)" for y v r
    using less.hyps [OF that(1)] that(2) by blast
  have for_value: "length r < length s" if pv: "parse_value s = Some (v, r)" for v r
  proof (cases s)
    case Nil
    with pv show ?thesis by (simp add: parse_value.simps)
  next
    case (Cons c cs)
    consider (array) "c = 0x5B" | (object) "c \<noteq> 0x5B" "c = 0x7B"
      | (string) "c \<noteq> 0x5B" "c \<noteq> 0x7B" "c = 0x22"
      | (true) "c \<noteq> 0x5B" "c \<noteq> 0x7B" "c \<noteq> 0x22" "take 4 (c # cs) = str ''true''"
      | (false) "c \<noteq> 0x5B" "c \<noteq> 0x7B" "c \<noteq> 0x22" "take 4 (c # cs) \<noteq> str ''true''"
          "take 5 (c # cs) = str ''false''"
      | (null) "c \<noteq> 0x5B" "c \<noteq> 0x7B" "c \<noteq> 0x22" "take 4 (c # cs) \<noteq> str ''true''"
          "take 5 (c # cs) \<noteq> str ''false''" "take 4 (c # cs) = str ''null''"
      | (number) "c \<noteq> 0x5B" "c \<noteq> 0x7B" "c \<noteq> 0x22" "take 4 (c # cs) \<noteq> str ''true''"
          "take 5 (c # cs) \<noteq> str ''false''" "take 4 (c # cs) \<noteq> str ''null''"
      by blast
    then show ?thesis
    proof cases
      case array
      with pv Cons obtain d ds where sk: "skip_ws cs = d # ds"
        by (auto simp: parse_value.simps split: list.splits)
      then have l: "length (d # ds) \<le> length cs"
        using length_skip_ws_le [of cs] by simp
      show ?thesis
      proof (cases "d = 0x5D")
        case True
        with pv Cons array sk l show ?thesis
          by (auto simp: parse_value.simps)
      next
        case False
        with pv Cons array sk obtain vs where "parse_elements (d # ds) = Some (vs, r)"
          by (auto simp: parse_value.simps split: option.splits)
        moreover have "length (d # ds) < length s"
          using l Cons by simp
        ultimately have "length r < length (d # ds)"
          using ih_elements by blast
        with l Cons show ?thesis by simp
      qed
    next
      case object
      with pv Cons obtain d ds where sk: "skip_ws cs = d # ds"
        by (auto simp: parse_value.simps split: list.splits)
      then have l: "length (d # ds) \<le> length cs"
        using length_skip_ws_le [of cs] by simp
      show ?thesis
      proof (cases "d = 0x7D")
        case True
        with pv Cons object sk l show ?thesis
          by (auto simp: parse_value.simps)
      next
        case False
        with pv Cons object sk obtain ms where "parse_members (d # ds) = Some (ms, r)"
          by (auto simp: parse_value.simps split: option.splits)
        moreover have "length (d # ds) < length s"
          using l Cons by simp
        ultimately have "length r < length (d # ds)"
          using ih_members by blast
        with l Cons show ?thesis by simp
      qed
    next
      case string
      with pv Cons obtain x where "parse_chars cs = Some (x, r)"
        by (auto simp: parse_value.simps split: option.splits)
      then have "length r < length cs" by (rule parse_chars_shorter)
      with Cons show ?thesis by simp
    next
      case true
      with pv Cons have "r = drop 4 (c # cs)"
        by (simp add: parse_value.simps)
      with literal_shorter [OF true(4)] Cons show ?thesis
        by (simp add: str_def)
    next
      case false
      with pv Cons have "r = drop 5 (c # cs)"
        by (simp add: parse_value.simps)
      with literal_shorter [OF false(5)] Cons show ?thesis
        by (simp add: str_def)
    next
      case null
      with pv Cons have "r = drop 4 (c # cs)"
        by (simp add: parse_value.simps)
      with literal_shorter [OF null(6)] Cons show ?thesis
        by (simp add: str_def)
    next
      case number
      with pv Cons obtain x where "parse_number (c # cs) = Some (x, r)"
        by (auto simp: parse_value.simps split: option.splits)
      then have "length r < length (c # cs)" by (rule parse_number_shorter)
      with Cons show ?thesis by simp
    qed
  qed
  have for_elements: "length r < length s" if pe: "parse_elements s = Some (vs, r)" for vs r
  proof -
    from pe obtain v r0 d ds where a: "parse_value s = Some (v, r0)" "skip_ws r0 = d # ds"
      by (subst (asm) parse_elements.simps) (auto split: option.splits list.splits)
    have l0: "length r0 < length s" using a(1) by (rule for_value)
    have l1: "length ds < length r0" using a(2) by (rule skip_ws_Cons_shorter)
    show ?thesis
    proof (cases "d = 0x2C")
      case True
      with pe a obtain ws where g: "length (skip_ws ds) < length s"
          and "parse_elements (skip_ws ds) = Some (ws, r)"
        by (subst (asm) parse_elements.simps) (auto split: option.splits if_splits)
      then have "length r < length (skip_ws ds)"
        using ih_elements by blast
      with g show ?thesis by simp
    next
      case False
      with pe a have "r = ds"
        by (subst (asm) parse_elements.simps) (auto split: if_splits)
      with l0 l1 show ?thesis by simp
    qed
  qed
  have for_members: "length r < length s" if pm: "parse_members s = Some (ms, r)" for ms r
  proof -
    from pm obtain cs k r0 ds v r1 e es where a: "s = 0x22 # cs" "parse_chars cs = Some (k, r0)"
        "skip_ws r0 = 0x3A # ds" "length (skip_ws ds) < length s"
        "parse_value (skip_ws ds) = Some (v, r1)" "skip_ws r1 = e # es"
      by (subst (asm) parse_members.simps) (auto split: option.splits list.splits if_splits)
    have l1: "length r1 < length (skip_ws ds)" using a(4,5) by (rule ih_value)
    have l2: "length es < length r1" using a(6) by (rule skip_ws_Cons_shorter)
    show ?thesis
    proof (cases "e = 0x2C")
      case True
      with pm a obtain ns where g: "length (skip_ws es) < length s"
          and "parse_members (skip_ws es) = Some (ns, r)"
        by (subst (asm) parse_members.simps) (auto split: option.splits if_splits)
      then have "length r < length (skip_ws es)"
        using ih_members by blast
      with g show ?thesis by simp
    next
      case False
      with pm a have "r = es"
        by (subst (asm) parse_members.simps) (auto split: if_splits)
      with l1 l2 a(4) show ?thesis by simp
    qed
  qed
  from for_value for_elements for_members show ?case by blast
qed

lemma parse_elements_unguarded:
  "parse_elements s =
     (case parse_value s of
        None \<Rightarrow> None
      | Some (v, r) \<Rightarrow>
          (case skip_ws r of
             [] \<Rightarrow> None
           | d # ds \<Rightarrow>
               if d = 0x2C then
                 (case parse_elements (skip_ws ds) of
                    None \<Rightarrow> None
                  | Some (vs, r') \<Rightarrow> Some (v # vs, r'))
               else if d = 0x5D then Some ([v], ds)
               else None))"
proof -
  have "length (skip_ws ds) < length s"
    if "parse_value s = Some (v, r)" "skip_ws r = d # ds" for v r d ds
  proof -
    have "length r < length s" using that(1) parse_shorter by blast
    moreover have "length ds < length r" using that(2) by (rule skip_ws_Cons_shorter)
    moreover have "length (skip_ws ds) \<le> length ds" by (rule length_skip_ws_le)
    ultimately show ?thesis by simp
  qed
  then show ?thesis
    by (subst parse_elements.simps) (simp split: option.splits list.splits)
qed

lemma parse_members_unguarded:
  "parse_members s =
     (case s of
        [] \<Rightarrow> None
      | q # cs \<Rightarrow>
          if q \<noteq> 0x22 then None
          else
            (case parse_chars cs of
               None \<Rightarrow> None
             | Some (k, r) \<Rightarrow>
                 (case skip_ws r of
                    [] \<Rightarrow> None
                  | d # ds \<Rightarrow>
                      if d \<noteq> 0x3A then None
                      else
                        (case parse_value (skip_ws ds) of
                           None \<Rightarrow> None
                         | Some (v, r1) \<Rightarrow>
                             (case skip_ws r1 of
                                [] \<Rightarrow> None
                              | e # es \<Rightarrow>
                                  if e = 0x2C then
                                    (case parse_members (skip_ws es) of
                                       None \<Rightarrow> None
                                     | Some (ms, r2) \<Rightarrow> Some ((k, v) # ms, r2))
                                  else if e = 0x7D then Some ([(k, v)], es)
                                  else None)))))"
proof -
  have g1: "length (skip_ws ds) < length s"
    if "s = q # cs" "parse_chars cs = Some (k, r)" "skip_ws r = d # ds" for q cs k r d ds
  proof -
    have "length r < length cs" using that(2) by (rule parse_chars_shorter)
    moreover have "length ds < length r" using that(3) by (rule skip_ws_Cons_shorter)
    moreover have "length (skip_ws ds) \<le> length ds" by (rule length_skip_ws_le)
    ultimately show ?thesis using that(1) by simp
  qed
  have g2: "length (skip_ws es) < length s"
    if "s = q # cs" "parse_chars cs = Some (k, r)" "skip_ws r = d # ds"
      "parse_value (skip_ws ds) = Some (v, r1)" "skip_ws r1 = e # es" for q cs k r d ds v r1 e es
  proof -
    have "length r1 < length (skip_ws ds)" using that(4) parse_shorter by blast
    moreover have "length es < length r1" using that(5) by (rule skip_ws_Cons_shorter)
    moreover have "length (skip_ws es) \<le> length es" by (rule length_skip_ws_le)
    ultimately show ?thesis using g1 [OF that(1-3)] by simp
  qed
  show ?thesis
  proof (cases s)
    case Nil
    then show ?thesis by (subst parse_members.simps) simp
  next
    case (Cons q cs)
    show ?thesis
    proof (cases "parse_chars cs")
      case None
      with Cons show ?thesis by (subst parse_members.simps) simp
    next
      case (Some kr)
      then obtain k r where kr: "parse_chars cs = Some (k, r)" by (cases kr) simp
      show ?thesis
      proof (cases "skip_ws r")
        case Nil
        with Cons kr show ?thesis by (subst parse_members.simps) simp
      next
        case ws: (Cons d ds)
        note guard1 = g1 [OF Cons kr ws]
        show ?thesis
        proof (cases "parse_value (skip_ws ds)")
          case None
          with Cons kr ws show ?thesis by (subst parse_members.simps) simp
        next
          case (Some vr)
          then obtain v r1 where vr: "parse_value (skip_ws ds) = Some (v, r1)" by (cases vr) simp
          show ?thesis
          proof (cases "skip_ws r1")
            case Nil
            with Cons kr ws vr show ?thesis by (subst parse_members.simps) simp
          next
            case ws1: (Cons e es)
            note guard2 = g2 [OF Cons kr ws vr ws1]
            from Cons kr ws vr ws1 guard1 guard2 show ?thesis
              by (subst parse_members.simps) simp
          qed
        qed
      qed
    qed
  qed
qed

section \<open>What the helpers leave alone\<close>

lemma tasks_showError [simp]: "tasks (showError m s) = tasks s"
  and localStorage_showError [simp]: "localStorage (showError m s) = localStorage s"
  and errorMessage_showError [simp]: "errorMessage (showError m s) = m"
  by (simp_all add: showError_def)

lemma tasks_render [simp]: "tasks (render s) = tasks s"
  and localStorage_render [simp]: "localStorage (render s) = localStorage s"
  and currentFilter_render [simp]: "currentFilter (render s) = currentFilter s"
  and errorMessage_render [simp]: "errorMessage (render s) = errorMessage s"
  and errorShown_render [simp]: "errorShown (render s) = errorShown s"
  and darkModeClass_render [simp]: "darkModeClass (render s) = darkModeClass s"
  by (simp_all add: render_def updateStats_def renderTasks_def Let_def)

lemma tasks_saveTasks [simp]: "tasks (saveTasks s) = tasks s"
  and currentFilter_saveTasks [simp]: "currentFilter (saveTasks s) = currentFilter s"
  and errorMessage_saveTasks [simp]: "errorMessage (saveTasks s) = errorMessage s"
  and errorShown_saveTasks [simp]: "errorShown (saveTasks s) = errorShown s"
  and darkModeClass_saveTasks [simp]: "darkModeClass (saveTasks s) = darkModeClass s"
  by (simp_all add: saveTasks_def split: sum.splits)

lemma messages_differ:
  "str ''Please enter a task description'' \<noteq> str ''Task description must be 200 characters or less''"
  by (simp add: str_def)





lemma loadTasks_after_save:
  assumes "\<not> denied (localStorage s)"
    and "accepts (localStorage s) (str ''tasks'') (JSON_stringify_tasks (tasks s))"
  shows "loadTasks (saveTasks s) = js_of_tasks (tasks s)"
  using assms
  by (simp add: loadTasks_def saveTasks_def setItem_def getItem_def JSON_parse_stringify
      JSON_stringify_nonempty)

lemma saveTasks_refused:
  assumes "denied (localStorage s)
    \<or> \<not> accepts (localStorage s) (str ''tasks'') (JSON_stringify_tasks (tasks s))"
  shows "saveTasks s = s"
  using assms by (auto simp: saveTasks_def setItem_def)

lemma taskForm_submit_handleAddTask:
  "taskForm_submit now isoNow s = snd (handleAddTask now isoNow s)"
  by (simp add: taskForm_submit_def handleAddTask_def Let_def)

lemma clearCompletedBtn_disabled_after_render:
  "clearCompletedBtnDisabled (render s) \<longleftrightarrow> filter (\<lambda>t. completed t) (tasks s) = []"
  by (simp add: render_def updateStats_def renderTasks_def calculateStats_def Let_def)

lemma clearCompletedBtn_click_disabled:
  "clearCompletedBtnDisabled s \<Longrightarrow> clearCompletedBtn_click confirmed s = s"
  by (simp add: clearCompletedBtn_click_def)

subsection \<open>Trimming sample inputs\<close>

lemma trim_spaces: "trim (str ''   '') = []"
  by (simp add: trim_def str_def is_whitespace_def)

lemma trim_replicate_a: "trim (replicate n 0x61) = replicate n 0x61"
  by (simp add: trim_def is_whitespace_def dropWhile_replicate)


subsection \<open>Finding and toggling the first task with an id\<close>


lemma findIndex_first:
  "\<forall>x\<in>set pre. \<not> P x \<Longrightarrow> P t \<Longrightarrow> findIndex P (pre @ t # post) = Some (length pre)"
  by (induction pre) auto

lemma findIndex_Some: "findIndex P xs = Some i \<Longrightarrow> i < length xs \<and> P (xs ! i)"
  by (induction xs arbitrary: i) (auto split: if_splits option.splits)


lemma toggle_first:
  assumes "tasks s = pre @ t # post" and "id' t = taskId" and "\<forall>x\<in>set pre. id' x \<noteq> taskId"
  shows "tasks (snd (handleToggleComplete taskId s)) = pre @ t\<lparr>completed := \<not> completed t\<rparr> # post"
proof -
  from assms have "findIndex (\<lambda>t. id' t = taskId) (tasks s) = Some (length pre)"
    by (simp add: findIndex_first)
  with assms(1) show ?thesis
    by (simp add: handleToggleComplete_def Let_def)
qed




lemma ids_toggle: "map id' (tasks (snd (handleToggleComplete taskId s))) = map id' (tasks s)"
proof (cases "findIndex (\<lambda>t. id' t = taskId) (tasks s)")
  case None
  then show ?thesis by (simp add: handleToggleComplete_def)
next
  case (Some i)
  then have "i < length (tasks s)"
    using findIndex_Some by blast
  then have "(map id' (tasks s))[i := id' (tasks s ! i)] = map id' (tasks s)"
    by (simp add: list_update_same_conv)
  with Some show ?thesis
    by (simp add: handleToggleComplete_def Let_def map_update)
qed

lemma tasks_add:
  "tasks (snd (handleAddTask now isoNow s)) = tasks s
   \<or> tasks (snd (handleAddTask now isoNow s))
       = \<lparr>id' = now, text' = trim (taskInput s), completed = False, createdAt = isoNow\<rparr> # tasks s"
  by (simp add: handleAddTask_def Let_def)

lemma perform_distinct:
  assumes "distinct (map id' (tasks s))"
    and "\<And>typed now isoNow. x = AddTask typed now isoNow \<Longrightarrow> now \<notin> set (map id' (tasks s))"
  shows "distinct (map id' (tasks (perform x s)))"
proof (cases x)
  case (AddTask typed now isoNow)
  then have "now \<notin> set (map id' (tasks s))"
    using assms(2) by blast
  with assms(1) AddTask tasks_add [of now isoNow "s\<lparr>taskInput := typed\<rparr>"] show ?thesis
    by auto
next
  case (ToggleComplete taskId)
  with assms(1) show ?thesis by (simp add: ids_toggle)
next
  case (DeleteTask taskId)
  with assms(1) show ?thesis by (simp add: handleDeleteTask_def distinct_map_filter)
next
  case (ClearCompleted confirmed)
  with assms(1) show ?thesis by (simp add: handleClearCompleted_def distinct_map_filter)
qed

lemma perform_all_distinct:
  "distinct (map id' (tasks s)) \<Longrightarrow> clock_fresh xs s \<Longrightarrow> distinct (map id' (tasks (perform_all xs s)))"
proof (induction xs arbitrary: s)
  case Nil
  then show ?case by simp
next
  case (Cons x xs)
  have step: "distinct (map id' (tasks (perform x s)))"
  proof (rule perform_distinct [OF Cons.prems(1)])
    fix typed now isoNow
    assume "x = AddTask typed now isoNow"
    with Cons.prems(2) show "now \<notin> set (map id' (tasks s))" by simp
  qed
  have "clock_fresh xs (perform x s)"
    using Cons.prems(2) by (cases x) simp_all
  with step show ?case
    using Cons.IH by simp
qed

subsection \<open>The theme entry\<close>





section \<open>Adding a task\<close>

text \<open>
  C1: \<open>handleAddTask\<close> works on the trimmed input. It ends with nothing done but the
  notice "Please enter a task description" shown exactly when the trimmed text is empty,
  and with nothing done but the notice "Task description must be 200 characters or less"
  shown exactly when the trimmed text is longer than 200 code units. In both cases the
  collection and the stored entries are as before.
\<close>

theorem handleAddTask_validation:
  "(snd (handleAddTask now isoNow s) = showError (str ''Please enter a task description'') s
      \<longleftrightarrow> trim (taskInput s) = [])
   \<and> (snd (handleAddTask now isoNow s)
         = showError (str ''Task description must be 200 characters or less'') s
      \<longleftrightarrow> 200 < length (trim (taskInput s)))
   \<and> (trim (taskInput s) = [] \<or> 200 < length (trim (taskInput s))
      \<longrightarrow> tasks (snd (handleAddTask now isoNow s)) = tasks s
          \<and> localStorage (snd (handleAddTask now isoNow s)) = localStorage s)"
proof -
  let ?e = "str ''Please enter a task description''"
  let ?l = "str ''Task description must be 200 characters or less''"
  let ?s' = "snd (handleAddTask now isoNow s)"
  consider (empty) "trim (taskInput s) = []"
    | (long) "trim (taskInput s) \<noteq> []" "200 < length (trim (taskInput s))"
    | (valid) "trim (taskInput s) \<noteq> []" "\<not> 200 < length (trim (taskInput s))"
    by blast
  then show ?thesis
  proof cases
    case empty
    then have eq: "?s' = showError ?e s"
      by (simp add: handleAddTask_def)
    have "showError ?e s \<noteq> showError ?l s"
      using messages_differ by (metis errorMessage_showError)
    with eq empty show ?thesis by simp
  next
    case long
    then have eq: "?s' = showError ?l s"
      by (simp add: handleAddTask_def)
    have "showError ?l s \<noteq> showError ?e s"
      using messages_differ by (metis errorMessage_showError)
    with eq long show ?thesis by simp
  next
    case valid
    then have "length (tasks ?s') = Suc (length (tasks s))"
      by (simp add: handleAddTask_def Let_def)
    then have "?s' \<noteq> showError ?e s" "?s' \<noteq> showError ?l s"
      by (metis tasks_showError n_not_Suc_n)+
    with valid show ?thesis by simp
  qed
qed

text \<open>
  Three blanks give the first notice, 201 letters the second, 200 letters neither.
\<close>

theorem handleAddTask_validation_witness:
  "snd (handleAddTask 0 [] (blank_app\<lparr>taskInput := str ''   ''\<rparr>))
     = showError (str ''Please enter a task description'') (blank_app\<lparr>taskInput := str ''   ''\<rparr>)
   \<and> snd (handleAddTask 0 [] (blank_app\<lparr>taskInput := replicate 201 0x61\<rparr>))
     = showError (str ''Task description must be 200 characters or less'')
         (blank_app\<lparr>taskInput := replicate 201 0x61\<rparr>)
   \<and> snd (handleAddTask 0 [] (blank_app\<lparr>taskInput := replicate 200 0x61\<rparr>))
     \<noteq> showError (str ''Task description must be 200 characters or less'')
         (blank_app\<lparr>taskInput := replicate 200 0x61\<rparr>)
   \<and> tasks (snd (handleAddTask 0 [] (blank_app\<lparr>taskInput := str ''   ''\<rparr>))) = []"
  using handleAddTask_validation [of 0 "[]" "blank_app\<lparr>taskInput := str ''   ''\<rparr>"]
    handleAddTask_validation [of 0 "[]" "blank_app\<lparr>taskInput := replicate 201 0x61\<rparr>"]
    handleAddTask_validation [of 0 "[]" "blank_app\<lparr>taskInput := replicate 200 0x61\<rparr>"]
  by (simp add: trim_spaces trim_replicate_a blank_app_def)



section \<open>Clearing the completed tasks\<close>




section \<open>Toggling a task\<close>




section \<open>The filtered view\<close>

text \<open>
  C5: \<open>getFilteredTasks\<close> gives the whole collection for the filter "all", the completed
  tasks for "completed" and the others for "pending", always as a subsequence of the
  collection in its order; any other filter value gives what "all" gives. It only reads
  the state, and selecting a filter leaves the collection as it is.
\<close>

theorem getFilteredTasks_views:
  "(currentFilter s = Some (str ''all'') \<longrightarrow> getFilteredTasks s = tasks s)
   \<and> (currentFilter s = Some (str ''completed'')
        \<longrightarrow> getFilteredTasks s = filter (\<lambda>t. completed t) (tasks s))
   \<and> (currentFilter s = Some (str ''pending'')
        \<longrightarrow> getFilteredTasks s = filter (\<lambda>t. \<not> completed t) (tasks s))
   \<and> (currentFilter s \<noteq> Some (str ''all'') \<and> currentFilter s \<noteq> Some (str ''completed'')
        \<and> currentFilter s \<noteq> Some (str ''pending'')
        \<longrightarrow> getFilteredTasks s = getFilteredTasks (s\<lparr>currentFilter := Some (str ''all'')\<rparr>))
   \<and> subseq (getFilteredTasks s) (tasks s)
   \<and> tasks (snd (handleFilterChange f s)) = tasks s"
proof -
  have ne: "str ''all'' \<noteq> str ''completed''" "str ''all'' \<noteq> str ''pending''"
    "str ''completed'' \<noteq> str ''pending''"
    by (simp_all add: str_def)
  have sub: "subseq (getFilteredTasks s) (tasks s)"
    by (simp add: getFilteredTasks_def)
  have keep: "tasks (snd (handleFilterChange f s)) = tasks s"
    by (simp add: handleFilterChange_def)
  from ne sub keep show ?thesis
    by (simp add: getFilteredTasks_def)
qed

theorem getFilteredTasks_views_witness:
  "getFilteredTasks (blank_app\<lparr>tasks := demo_tasks, currentFilter := Some (str ''completed'')\<rparr>)
     = filter (\<lambda>t. completed t) demo_tasks
   \<and> getFilteredTasks (blank_app\<lparr>tasks := demo_tasks, currentFilter := Some (str ''pending'')\<rparr>)
     = filter (\<lambda>t. \<not> completed t) demo_tasks
   \<and> getFilteredTasks (blank_app\<lparr>tasks := demo_tasks, currentFilter := Some (str ''all'')\<rparr>)
     = demo_tasks
   \<and> getFilteredTasks (blank_app\<lparr>tasks := demo_tasks, currentFilter := None\<rparr>)
     = getFilteredTasks (blank_app\<lparr>tasks := demo_tasks, currentFilter := Some (str ''all'')\<rparr>)"
  using getFilteredTasks_views
      [of "blank_app\<lparr>tasks := demo_tasks, currentFilter := Some (str ''completed'')\<rparr>"]
    getFilteredTasks_views
      [of "blank_app\<lparr>tasks := demo_tasks, currentFilter := Some (str ''pending'')\<rparr>"]
    getFilteredTasks_views
      [of "blank_app\<lparr>tasks := demo_tasks, currentFilter := Some (str ''all'')\<rparr>"]
    getFilteredTasks_views
      [of "blank_app\<lparr>tasks := demo_tasks, currentFilter := None\<rparr>"]
  by simp

section \<open>Statistics\<close>

text \<open>
  C6: \<open>calculateStats\<close> gives the size of the collection as total, the number of
  completed tasks as completed and their difference as remaining; so total is completed
  plus remaining, and none of the three is negative.
\<close>

theorem calculateStats_counts:
  "total (calculateStats s) = int (length (tasks s))
   \<and> completed' (calculateStats s) = int (length (filter (\<lambda>t. completed t) (tasks s)))
   \<and> remaining (calculateStats s) = total (calculateStats s) - completed' (calculateStats s)
   \<and> total (calculateStats s) = completed' (calculateStats s) + remaining (calculateStats s)
   \<and> 0 \<le> total (calculateStats s)
   \<and> 0 \<le> completed' (calculateStats s)
   \<and> 0 \<le> remaining (calculateStats s)"
proof -
  have "length (filter (\<lambda>t. completed t) (tasks s)) \<le> length (tasks s)"
    by (rule length_filter_le)
  then show ?thesis
    by (simp add: calculateStats_def Let_def)
qed

section \<open>Saving and loading\<close>

text \<open>
  C7, as the code has it: when the store is accessible and takes the write, \<open>loadTasks\<close>
  after \<open>saveTasks\<close> gives the array of the task objects of the collection, in order and
  field by field, and no other collection has that array. When the store refuses the
  write, \<open>saveTasks\<close> changes nothing. \<open>loadTasks\<close> gives the empty array when there is no
  entry, when the stored text does not parse and when the store is not accessible.
\<close>

theorem load_after_accepted_save:
  "(\<not> denied (localStorage s)
      \<and> accepts (localStorage s) (str ''tasks'') (JSON_stringify_tasks (tasks s))
     \<longrightarrow> loadTasks (saveTasks s) = js_of_tasks (tasks s)
         \<and> (\<forall>ts. js_of_tasks ts = loadTasks (saveTasks s) \<longrightarrow> ts = tasks s))
   \<and> (denied (localStorage s)
        \<or> \<not> accepts (localStorage s) (str ''tasks'') (JSON_stringify_tasks (tasks s))
     \<longrightarrow> saveTasks s = s)
   \<and> (items (localStorage s) (str ''tasks'') = None \<longrightarrow> loadTasks s = JArray [])
   \<and> (\<forall>stored. items (localStorage s) (str ''tasks'') = Some stored
          \<and> JSON_parse stored = Inl SyntaxError \<longrightarrow> loadTasks s = JArray [])
   \<and> (denied (localStorage s) \<longrightarrow> loadTasks s = JArray [])"
proof -
  have a: "loadTasks (saveTasks s) = js_of_tasks (tasks s)
         \<and> (\<forall>ts. js_of_tasks ts = loadTasks (saveTasks s) \<longrightarrow> ts = tasks s)"
    if "\<not> denied (localStorage s)"
      "accepts (localStorage s) (str ''tasks'') (JSON_stringify_tasks (tasks s))"
    using loadTasks_after_save [OF that] js_of_tasks_inj by auto
  have b: "saveTasks s = s"
    if "denied (localStorage s)
        \<or> \<not> accepts (localStorage s) (str ''tasks'') (JSON_stringify_tasks (tasks s))"
    using that by (rule saveTasks_refused)
  have c: "loadTasks s = JArray []" if "items (localStorage s) (str ''tasks'') = None"
    using that by (simp add: loadTasks_def getItem_def)
  have d: "loadTasks s = JArray []"
    if "items (localStorage s) (str ''tasks'') = Some stored" "JSON_parse stored = Inl SyntaxError"
    for stored
    using that by (simp add: loadTasks_def getItem_def)
  have e: "loadTasks s = JArray []" if "denied (localStorage s)"
    using that by (simp add: loadTasks_def getItem_def)
  from a b c d e show ?thesis by blast
qed

theorem load_after_accepted_save_witness:
  "loadTasks (saveTasks (blank_app\<lparr>tasks := demo_tasks\<rparr>)) = js_of_tasks demo_tasks
   \<and> loadTasks blank_app = JArray []
   \<and> loadTasks (blank_app\<lparr>localStorage := blank_storage\<lparr>items := [str ''tasks'' \<mapsto> str ''[1,'']\<rparr>\<rparr>)
       = JArray []"
proof -
  let ?bad = "blank_app\<lparr>localStorage := blank_storage\<lparr>items := [str ''tasks'' \<mapsto> str ''[1,'']\<rparr>\<rparr>"
  have ok: "\<not> denied (localStorage (blank_app\<lparr>tasks := demo_tasks\<rparr>))"
    "accepts (localStorage (blank_app\<lparr>tasks := demo_tasks\<rparr>)) (str ''tasks'')
       (JSON_stringify_tasks (tasks (blank_app\<lparr>tasks := demo_tasks\<rparr>)))"
    by (simp_all add: blank_app_def blank_storage_def)
  have none: "items (localStorage blank_app) (str ''tasks'') = None"
    by (simp add: blank_app_def blank_storage_def)
  have stored: "items (localStorage ?bad) (str ''tasks'') = Some (str ''[1,'')"
    by simp
  have bad: "JSON_parse (str ''[1,'') = Inl SyntaxError"
    by (simp add: JSON_parse_def str_def skip_ws_def is_json_ws_def parse_value.simps
        parse_elements.simps parse_number_def parse_int_part_def parse_fraction_def
        parse_exponent_def is_digit_def digits_value_def)
  show ?thesis
    using load_after_accepted_save [of "blank_app\<lparr>tasks := demo_tasks\<rparr>"]
      load_after_accepted_save [of blank_app] load_after_accepted_save [of ?bad]
      ok none stored bad
    by simp
qed

text \<open>
  Where the wording of the specification fails: a store whose quota is used up refuses
  the write and keeps no entry, so loading after saving three tasks gives the empty array.
\<close>

theorem save_refused_counterexample:
  "loadTasks (saveTasks (blank_app\<lparr>tasks := demo_tasks, localStorage := full_storage\<rparr>))
     = JArray []
   \<and> js_of_tasks demo_tasks \<noteq> JArray []"
proof -
  let ?s = "blank_app\<lparr>tasks := demo_tasks, localStorage := full_storage\<rparr>"
  have "\<not> accepts (localStorage ?s) (str ''tasks'') (JSON_stringify_tasks (tasks ?s))"
    by (simp add: full_storage_def)
  then have "saveTasks ?s = ?s"
    using saveTasks_refused by blast
  then have "loadTasks (saveTasks ?s) = JArray []"
    by (simp add: loadTasks_def getItem_def full_storage_def)
  then show ?thesis
    by (simp add: js_of_tasks_def demo_tasks_def)
qed

section \<open>Identifiers\<close>

text \<open>
  C8, as the code has it: starting from the empty collection, after any sequence of the
  four operations the ids are pairwise different, provided every submission happens at a
  reading of \<open>Date.now()\<close> that is not the id of a task then in the collection.
\<close>

theorem ids_unique_when_clock_fresh:
  assumes "tasks s = []" and "clock_fresh xs s"
  shows "distinct (map id' (tasks (perform_all xs s)))"
proof -
  from assms(1) have "distinct (map id' (tasks s))"
    by simp
  then show ?thesis
    using assms(2) by (rule perform_all_distinct)
qed

theorem ids_unique_when_clock_fresh_witness:
  "tasks blank_app = []
   \<and> clock_fresh [AddTask (str ''a'') 5 [], AddTask (str ''b'') 6 [], ToggleComplete 5, DeleteTask 6]
       blank_app
   \<and> distinct (map id' (tasks (perform_all
       [AddTask (str ''a'') 5 [], AddTask (str ''b'') 6 [], ToggleComplete 5, DeleteTask 6] blank_app)))"
proof -
  have e: "tasks blank_app = []"
    by (simp add: blank_app_def)
  have "trim (str ''a'') = str ''a''"
    by (simp add: trim_def str_def is_whitespace_def)
  then have "tasks (snd (handleAddTask 5 [] (blank_app\<lparr>taskInput := str ''a''\<rparr>)))
      = [\<lparr>id' = 5, text' = str ''a'', completed = False, createdAt = []\<rparr>]"
    by (simp add: handleAddTask_def Let_def blank_app_def str_def)
  then have f: "clock_fresh [AddTask (str ''a'') 5 [], AddTask (str ''b'') 6 [], ToggleComplete 5, DeleteTask 6]
       blank_app"
    by (simp add: e)
  from e f ids_unique_when_clock_fresh [OF e f] show ?thesis by simp
qed

text \<open>
  Where the wording of the specification fails: two submissions in the same millisecond
  give two tasks with the same id.
\<close>

theorem same_instant_ids_counterexample:
  "map id' (tasks (perform_all [AddTask (str ''a'') 5 [], AddTask (str ''b'') 5 []] blank_app)) = [5, 5]
   \<and> \<not> distinct (map id' (tasks (perform_all [AddTask (str ''a'') 5 [], AddTask (str ''b'') 5 []] blank_app)))"
proof -
  have "trim (str ''a'') = str ''a''" "trim (str ''b'') = str ''b''"
    by (simp_all add: trim_def str_def is_whitespace_def)
  then have "map id' (tasks (perform_all [AddTask (str ''a'') 5 [], AddTask (str ''b'') 5 []] blank_app)) = [5, 5]"
    by (simp add: handleAddTask_def Let_def blank_app_def str_def)
  then show ?thesis by simp
qed

section \<open>The theme\<close>




section \<open>Tasks that share an id\<close>

text \<open>
  C10: \<open>handleDeleteTask\<close> keeps exactly the tasks with another id, so no task with the
  deleted id remains, however many there were; \<open>handleToggleComplete\<close> flips the first
  task with the id and leaves every later task, those with the same id included, as it
  is.
\<close>

theorem duplicate_ids_delete_all_toggle_first:
  "tasks (snd (handleDeleteTask taskId s)) = filter (\<lambda>t. id' t \<noteq> taskId) (tasks s)
   \<and> taskId \<notin> set (map id' (tasks (snd (handleDeleteTask taskId s))))
   \<and> (\<forall>pre t post. tasks s = pre @ t # post \<and> id' t = taskId \<and> taskId \<notin> set (map id' pre)
        \<longrightarrow> tasks (snd (handleToggleComplete taskId s))
              = pre @ t\<lparr>completed := \<not> completed t\<rparr> # post)"
proof -
  have del: "tasks (snd (handleDeleteTask taskId s)) = filter (\<lambda>t. id' t \<noteq> taskId) (tasks s)"
    by (simp add: handleDeleteTask_def)
  then have gone: "taskId \<notin> set (map id' (tasks (snd (handleDeleteTask taskId s))))"
    by auto
  have tog: "tasks (snd (handleToggleComplete taskId s)) = pre @ t\<lparr>completed := \<not> completed t\<rparr> # post"
    if "tasks s = pre @ t # post" "id' t = taskId" "taskId \<notin> set (map id' pre)" for pre t post
  proof (rule toggle_first [OF that(1,2)])
    from that(3) show "\<forall>x\<in>set pre. id' x \<noteq> taskId" by force
  qed
  from del gone tog show ?thesis by blast
qed

theorem duplicate_ids_delete_all_toggle_first_witness:
  "tasks (snd (handleDeleteTask 5 (blank_app\<lparr>tasks := twin_tasks\<rparr>)))
     = [\<lparr>id' = 4, text' = str ''old'', completed = False, createdAt = []\<rparr>]
   \<and> tasks (snd (handleToggleComplete 5 (blank_app\<lparr>tasks := twin_tasks\<rparr>)))
     = [\<lparr>id' = 5, text' = str ''new'', completed = True, createdAt = []\<rparr>,
        \<lparr>id' = 5, text' = str ''twin'', completed = False, createdAt = []\<rparr>,
        \<lparr>id' = 4, text' = str ''old'', completed = False, createdAt = []\<rparr>]"
proof -
  let ?s = "blank_app\<lparr>tasks := twin_tasks\<rparr>"
  let ?new = "\<lparr>id' = 5, text' = str ''new'', completed = False, createdAt = []\<rparr>"
  let ?post = "[\<lparr>id' = 5, text' = str ''twin'', completed = False, createdAt = []\<rparr>,
      \<lparr>id' = 4, text' = str ''old'', completed = False, createdAt = []\<rparr>]"
  have split: "tasks ?s = [] @ ?new # ?post \<and> id' ?new = 5 \<and> 5 \<notin> set (map id' ([] :: task list))"
    by (simp add: twin_tasks_def)
  have all: "tasks (snd (handleDeleteTask 5 ?s)) = filter (\<lambda>t. id' t \<noteq> 5) (tasks ?s)
     \<and> (\<forall>pre t post. tasks ?s = pre @ t # post \<and> id' t = 5 \<and> 5 \<notin> set (map id' pre)
        \<longrightarrow> tasks (snd (handleToggleComplete 5 ?s)) = pre @ t\<lparr>completed := \<not> completed t\<rparr> # post)"
    using duplicate_ids_delete_all_toggle_first [of 5 ?s] by simp
  then have "tasks (snd (handleToggleComplete 5 ?s)) = [] @ ?new\<lparr>completed := \<not> completed ?new\<rparr> # ?post"
    using split by blast
  moreover from all have "tasks (snd (handleDeleteTask 5 ?s)) = filter (\<lambda>t. id' t \<noteq> 5) (tasks ?s)"
    by simp
  ultimately show ?thesis
    by (simp add: twin_tasks_def)
qed

section \<open>The scenario of the specification\<close>

text \<open>
  After the run, the pending view shows "Walk dog", the completed view "Buy milk", and the
  counts are 2, 1 and 1.
\<close>

lemma scenario_tasks:
  "tasks after_scenario =
     [\<lparr>id' = 2, text' = str ''Walk dog'', completed = False, createdAt = str ''t2''\<rparr>,
      \<lparr>id' = 1, text' = str ''Buy milk'', completed = True, createdAt = str ''t1''\<rparr>]"
proof -
  have t: "trim (str ''Buy milk'') = str ''Buy milk''" "trim (str ''Walk dog'') = str ''Walk dog''"
    by (simp_all add: trim_def str_def is_whitespace_def)
  have n: "str ''Buy milk'' \<noteq> []" "str ''Walk dog'' \<noteq> []"
    "length (str ''Buy milk'') \<le> 200" "length (str ''Walk dog'') \<le> 200"
    by (simp_all add: str_def)
  show ?thesis
    using n by (simp add: after_scenario_def handleAddTask_def handleToggleComplete_def Let_def t
        blank_app_def)
qed

lemma scenario_views:
  "map text' (getFilteredTasks (after_scenario\<lparr>currentFilter := Some (str ''pending'')\<rparr>))
     = [str ''Walk dog'']
   \<and> map text' (getFilteredTasks (after_scenario\<lparr>currentFilter := Some (str ''completed'')\<rparr>))
     = [str ''Buy milk'']
   \<and> calculateStats after_scenario = \<lparr>total = 2, completed' = 1, remaining = 1\<rparr>"
proof -
  have ne: "str ''pending'' \<noteq> str ''completed''"
    by (simp add: str_def)
  then show ?thesis
    by (simp add: getFilteredTasks_def calculateStats_def scenario_tasks)
qed

end
